theory Spec2Isabelle
  imports Main "HOL-Library.Sublist" "HOL-Library.AList"
begin

section \<open>The document tree of \<open>src/utils/editor/slate.ts\<close>\<close>

text \<open>
  The module \<open>EditorInterface\<close> is a layer of policy functions over the Slate editor.
  The element types are the enum \<open>ElementType\<close>; a text leaf is a \<open>FormattedText\<close>;
  an element carries its type, the fields particular to some types (\<open>level\<close>, \<open>url\<close>,
  \<open>alt\<close>, \<open>promptName\<close>) and its children.

  Every node of the tree is a JavaScript object, and \<open>ReactEditor.findPath\<close> looks a
  node up by the object it is, not by what it holds. The first argument of \<open>Text\<close> and
  \<open>Element\<close> is a tag standing for that object: two nodes are the same object exactly
  when their tags are equal.

  The declared type \<open>ImageElement\<close> has no \<open>children\<close>; in a Slate tree every element
  holds a children array, and the functions below never read the children of an image
  (they test for the image type first), so an image here has a children list as well.
\<close>

datatype ElementType =
    Paragraph | Heading | ListOrdered | ListOrderedItem | ListUnordered
  | ListUnorderedItem | Blockquote | Codeblock | Image | Idea

record FormattedText =
  bold :: "bool option"
  italic :: "bool option"
  underline :: "bool option"
  strikethrough :: "bool option"
  code :: "bool option"
  link :: "string option"
  text' :: string

record ElementProps =
  level :: "int option"
  url :: "string option"
  alt :: "string option"
  promptName :: "string option"

datatype node =
    Text nat FormattedText
  | Element nat ElementType ElementProps "node list"

record Point =
  point_path :: "int list"
  point_offset :: int

record Selection =
  anchor :: Point
  focus :: Point

record Editor =
  children :: "node list"
  selection :: "Selection option"

text \<open>
  A value of the TypeScript type \<open>Editor | CustomElement\<close>: what \<open>Editor.node\<close> yields
  and what \<open>getNodeType\<close> takes. A text leaf can stand where the code casts to
  \<open>CustomElement\<close> without a check.
\<close>

datatype slate_value = Ed Editor | Nd node

datatype error =
    OutOfBounds
  | NodeNotFound
  | PathRequired
  | TypeError

text \<open>\<open>node.type\<close> and \<open>node.children\<close>; \<open>None\<close> is JavaScript's \<open>undefined\<close>.\<close>

fun type_of :: "slate_value \<Rightarrow> ElementType option" where
  "type_of (Ed e) = None"
| "type_of (Nd (Text i ft)) = None"
| "type_of (Nd (Element i t pr cs)) = Some t"

fun children_of :: "slate_value \<Rightarrow> node list option" where
  "children_of (Ed e) = Some (children e)"
| "children_of (Nd (Text i ft)) = None"
| "children_of (Nd (Element i t pr cs)) = Some cs"

fun ident :: "node \<Rightarrow> nat" where
  "ident (Text i ft) = i"
| "ident (Element i t pr cs) = i"

fun idents :: "node \<Rightarrow> nat list" where
  "idents (Text i ft) = [i]"
| "idents (Element i t pr cs) = i # concat (map idents cs)"

definition idents_list :: "node list \<Rightarrow> nat list" where
  "idents_list cs = concat (map idents cs)"

section \<open>The tree-edit engine\<close>

text \<open>
  Slate itself is not part of the repository. Its primitives are modelled as the
  specification describes them (sections 4.1 and 4.3), with the failures Slate raises as
  error values.

  One property of Slate decides how the code above it behaves and is modelled as Slate
  has it: a Slate document is immutable. A transform assigns a new array to
  \<open>editor.children\<close>, in which the nodes along the edited path are new objects and all
  others are shared; a node object read before the transform keeps the children it had.
  The editor is the only object a transform changes in place.
\<close>

text \<open>Modelled from the spec: \<open>resolveNodeByPath\<close> (Slate's \<open>Node.get\<close>), which
  descends from the root by child index and fails when a segment has no child.\<close>

fun Node_get :: "slate_value \<Rightarrow> int list \<Rightarrow> error + slate_value" where
  "Node_get root [] = Inr root"
| "Node_get root (p # ps) =
     (case children_of root of
        None \<Rightarrow> Inl OutOfBounds
      | Some cs \<Rightarrow>
          if 0 \<le> p \<and> nat p < length cs then Node_get (Nd (cs ! nat p)) ps
          else Inl OutOfBounds)"

definition Editor_node :: "Editor \<Rightarrow> int list \<Rightarrow> error + slate_value" where
  "Editor_node editorState at = Node_get (Ed editorState) at"

text \<open>Modelled from the spec: \<open>resolvePathByIdentity\<close> (\<open>ReactEditor.findPath\<close>), the
  path of the node object with the given tag, searched in document order; it fails
  with \<open>NodeNotFound\<close> when the object is not in the tree.\<close>

fun findPath_node :: "nat \<Rightarrow> node \<Rightarrow> int list option"
  and findPath_list :: "nat \<Rightarrow> node list \<Rightarrow> int \<Rightarrow> int list option" where
  "findPath_node i (Text j ft) = (if i = j then Some [] else None)"
| "findPath_node i (Element j t pr cs) = (if i = j then Some [] else findPath_list i cs 0)"
| "findPath_list i [] k = None"
| "findPath_list i (c # cs) k =
     (case findPath_node i c of
        Some p \<Rightarrow> Some (k # p)
      | None \<Rightarrow> findPath_list i cs (k + 1))"

definition findPath :: "Editor \<Rightarrow> node \<Rightarrow> error + int list" where
  "findPath editorState n =
     (case findPath_list (ident n) (children editorState) 0 of
        None \<Rightarrow> Inl NodeNotFound
      | Some p \<Rightarrow> Inr p)"

text \<open>
  \<open>modify_at f cs ps\<close> rebuilds the children list \<open>cs\<close> of the root with \<open>f\<close> applied
  to the children of the node at path \<open>ps\<close>; it fails when \<open>ps\<close> leads to no element.
\<close>

fun modify_at ::
  "(node list \<Rightarrow> error + node list) \<Rightarrow> node list \<Rightarrow> int list \<Rightarrow> error + node list" where
  "modify_at f cs [] = f cs"
| "modify_at f cs (p # ps) =
     (if 0 \<le> p \<and> nat p < length cs then
        (case cs ! nat p of
           Text i ft \<Rightarrow> Inl OutOfBounds
         | Element i t pr ks \<Rightarrow>
             (case modify_at f ks ps of
                Inl e \<Rightarrow> Inl e
              | Inr ks' \<Rightarrow> Inr (cs[nat p := Element i t pr ks'])))
      else Inl OutOfBounds)"

definition edit_parent ::
  "(nat \<Rightarrow> node list \<Rightarrow> error + node list) \<Rightarrow> Editor \<Rightarrow> int list \<Rightarrow> error + Editor" where
  "edit_parent f editorState at =
     (if at = [] \<or> last at < 0 then Inl OutOfBounds
      else
        (case modify_at (f (nat (last at))) (children editorState) (butlast at) of
           Inl e \<Rightarrow> Inl e
         | Inr cs \<Rightarrow> Inr (editorState\<lparr>children := cs\<rparr>)))"

text \<open>Modelled from the spec: \<open>insertNode\<close> (\<open>Transforms.insertNodes\<close> with \<open>at\<close> a
  path): the node becomes the child at \<open>at\<close>, the siblings from there on move up by
  one; an index past the end of the parent's children is refused.\<close>

definition Transforms_insertNodes :: "Editor \<Rightarrow> node \<Rightarrow> int list \<Rightarrow> error + Editor" where
  "Transforms_insertNodes editorState n at =
     edit_parent
       (\<lambda>k cs. if k \<le> length cs then Inr (take k cs @ n # drop k cs) else Inl OutOfBounds)
       editorState at"

text \<open>Modelled from the spec: \<open>deleteNode\<close> (\<open>Transforms.removeNodes\<close> with \<open>at\<close> a
  path): the node at \<open>at\<close> is removed, the later siblings move down by one.\<close>

definition Transforms_removeNodes :: "Editor \<Rightarrow> int list \<Rightarrow> error + Editor" where
  "Transforms_removeNodes editorState at =
     edit_parent
       (\<lambda>k cs. if k < length cs then Inr (take k cs @ drop (Suc k) cs) else Inl OutOfBounds)
       editorState at"

text \<open>The tag of an object allocated now: one no node of the tree has.\<close>

definition fresh_ident :: "Editor \<Rightarrow> nat" where
  "fresh_ident editorState = Suc (fold max (idents_list (children editorState)) 0)"

text \<open>Modelled from the spec: \<open>Transforms.wrapNodes\<close> with \<open>at\<close> a path: the node at
  \<open>at\<close> is replaced in place by a new container of the given type and fields whose
  single child it is.\<close>

definition Transforms_wrapNodes ::
  "Editor \<Rightarrow> ElementType \<Rightarrow> ElementProps \<Rightarrow> int list \<Rightarrow> error + Editor" where
  "Transforms_wrapNodes editorState t pr at =
     edit_parent
       (\<lambda>k cs. if k < length cs
          then Inr (cs[k := Element (fresh_ident editorState) t pr [cs ! k]])
          else Inl OutOfBounds)
       editorState at"

section \<open>Core interfaces\<close>

definition getNode :: "Editor \<Rightarrow> int list \<Rightarrow> error + slate_value" where
  "getNode editorState path = Editor_node editorState path"

text \<open>The second overload of \<open>getNode\<close>, from a node to its path.\<close>

definition getNode_path :: "Editor \<Rightarrow> node \<Rightarrow> error + int list" where
  "getNode_path editorState n = findPath editorState n"

text \<open>
  \<open>getSelectedRootNode\<close> returns the pair \<open>{node, index}\<close>; the node is \<open>None\<close> for
  \<open>null\<close>. With an empty anchor path \<open>path[0]\<close> is \<open>undefined\<close> and \<open>Editor.node\<close>
  finds no child for it.
\<close>

definition getSelectedRootNode :: "Editor \<Rightarrow> error + (slate_value option \<times> int)" where
  "getSelectedRootNode editorState =
     (case selection editorState of
        Some sel \<Rightarrow>
          (case point_path (anchor sel) of
             [] \<Rightarrow> Inl OutOfBounds
           | nodeIndex # rest \<Rightarrow>
               (case Editor_node editorState [nodeIndex] of
                  Inl e \<Rightarrow> Inl e
                | Inr n \<Rightarrow> Inr (Some n, nodeIndex)))
      | None \<Rightarrow> Inr (None, - 1))"

text \<open>\<open>isEditor\<close>: the value has an \<open>apply\<close> property, which the editor has and no
  node of the declared types has.\<close>

fun isEditor :: "slate_value \<Rightarrow> bool" where
  "isEditor (Ed e) = True"
| "isEditor (Nd n) = False"

text \<open>Slate's \<open>Element.isElement\<close>: an object with a children array that is not an
  editor.\<close>

fun Element_isElement :: "slate_value \<Rightarrow> bool" where
  "Element_isElement (Ed e) = False"
| "Element_isElement (Nd (Text i ft)) = False"
| "Element_isElement (Nd (Element i t pr cs)) = True"

text \<open>
  \<open>getNodeType(arg1, path?)\<close>: the optional second argument is \<open>None\<close> when it is
  left out. The value tested at the end is an object, so \<open>!node\<close> is false and the
  result is decided by \<open>Element.isElement\<close>.
\<close>

definition getNodeType :: "slate_value \<Rightarrow> int list option \<Rightarrow> error + ElementType option" where
  "getNodeType arg1 path_opt =
     (case
        (if isEditor arg1 then
           (case path_opt of
              None \<Rightarrow> Inl PathRequired
            | Some p \<Rightarrow> (case arg1 of Ed e \<Rightarrow> getNode e p | Nd n \<Rightarrow> Inr (Nd n)))
         else Inr arg1)
      of
        Inl e \<Rightarrow> Inl e
      | Inr n \<Rightarrow> if \<not> Element_isElement n then Inr None else Inr (type_of n))"

fun isIdeaElement :: "node \<Rightarrow> bool" where
  "isIdeaElement (Text i ft) = False"
| "isIdeaElement (Element i t pr cs) = (t = Idea)"

text \<open>\<open>path.slice(0, -1)\<close>: the path without its last segment, the empty path for the
  empty path.\<close>

definition getNodeParent :: "Editor \<Rightarrow> int list \<Rightarrow> error + (slate_value \<times> int list)" where
  "getNodeParent editorState path =
     (let parentPath = butlast path in
        (case getNode editorState parentPath of
           Inl e \<Rightarrow> Inl e
         | Inr parent \<Rightarrow> Inr (parent, parentPath)))"

text \<open>\<open>getNodeChildren\<close> returns \<open>node.children\<close> as it is, so \<open>undefined\<close> (\<open>None\<close>)
  for a text leaf.\<close>

definition getNodeChildren :: "Editor \<Rightarrow> int list \<Rightarrow> error + node list option" where
  "getNodeChildren editorState path =
     (case getNode editorState path of
        Inl e \<Rightarrow> Inl e
      | Inr n \<Rightarrow> if type_of n \<noteq> Some Image then Inr (children_of n) else Inr (Some []))"

text \<open>
  \<open>getNodeContent\<close>: the loop over the children is the \<open>foldl\<close>; a child with a
  \<open>text\<close> property adds its text, any other child adds the content of the node at
  \<open>path.concat(0)\<close>. Iterating over \<open>undefined\<close> is a \<open>TypeError\<close>.
\<close>

function getNodeContent :: "Editor \<Rightarrow> int list \<Rightarrow> error + string" where
  "getNodeContent editorState path =
     (case getNodeChildren editorState path of
        Inl e \<Rightarrow> Inl e
      | Inr None \<Rightarrow> Inl TypeError
      | Inr (Some kids) \<Rightarrow>
          foldl
            (\<lambda>content child.
               case content of
                 Inl e \<Rightarrow> Inl e
               | Inr s \<Rightarrow>
                   (case child of
                      Text i ft \<Rightarrow> Inr (s @ text' ft)
                    | Element i t pr cs \<Rightarrow>
                        (case getNodeContent editorState (path @ [0]) of
                           Inl e \<Rightarrow> Inl e
                         | Inr s' \<Rightarrow> Inr (s @ s'))))
            (Inr []) kids)"
  by pat_completeness auto

lemma Node_get_append:
  "Node_get r (p @ q) = (case Node_get r p of Inl e \<Rightarrow> Inl e | Inr v \<Rightarrow> Node_get v q)"
  by (induction p arbitrary: r) (auto split: option.splits)

definition value_size :: "slate_value \<Rightarrow> nat" where
  "value_size v = (case v of Ed e \<Rightarrow> Suc (size_list size (children e)) | Nd n \<Rightarrow> size n)"

lemma child_smaller:
  assumes "children_of v = Some cs" and "c \<in> set cs"
  shows "size c < value_size v"
proof -
  have "size c \<le> size_list size cs"
    using assms(2) by (simp add: size_list_estimation')
  with assms(1) show ?thesis
    by (cases v rule: children_of.cases) (simp_all add: value_size_def)
qed

lemma first_child_smaller:
  assumes "Node_get r path = Inr v" and "children_of v = Some cs" and "c \<in> set cs"
  shows "(case Node_get r (path @ [0]) of Inl e \<Rightarrow> 0 | Inr w \<Rightarrow> value_size w) < value_size v"
proof -
  from assms(3) have ne: "0 < length cs" by (cases cs) auto
  then have "cs ! 0 \<in> set cs" by simp
  then have "size (cs ! 0) < value_size v" using assms(2) by (rule child_smaller[rotated])
  with ne assms(1,2) show ?thesis
    by (simp add: Node_get_append value_size_def)
qed

text \<open>Each recursive call descends to the first child of a node that has children,
  so the size of the node at the path decreases.\<close>

termination getNodeContent
proof (relation "measure (\<lambda>(ed, p). case Node_get (Ed ed) p of Inl e \<Rightarrow> 0 | Inr w \<Rightarrow> value_size w)")
  show "wf (measure (\<lambda>(ed, p). case Node_get (Ed ed) p of Inl e \<Rightarrow> 0 | Inr w \<Rightarrow> value_size w))"
    by simp
next
  fix editorState :: Editor and path :: "int list" and b kids x i t pr cs
  assume ch: "getNodeChildren editorState path = Inr b" and b: "b = Some kids"
    and mem: "x \<in> set kids" and x: "x = Element i t pr cs"
  from ch b obtain v where v: "Node_get (Ed editorState) path = Inr v"
    and k: "children_of v = Some kids \<or> kids = []"
    by (auto simp: getNodeChildren_def getNode_def Editor_node_def split: sum.splits if_splits)
  from k mem have k': "children_of v = Some kids" by auto
  from first_child_smaller[OF v k' mem] v
  show "((editorState, path @ [0]), (editorState, path))
      \<in> measure (\<lambda>(ed, p). case Node_get (Ed ed) p of Inl e \<Rightarrow> 0 | Inr w \<Rightarrow> value_size w)"
    by simp
qed

definition insertNode :: "Editor \<Rightarrow> node \<Rightarrow> int list \<Rightarrow> error + Editor" where
  "insertNode editorState n path = Transforms_insertNodes editorState n path"

definition deleteNode :: "Editor \<Rightarrow> int list \<Rightarrow> error + Editor" where
  "deleteNode editorState n = Transforms_removeNodes editorState n"

subsection \<open>\<open>generateNewNode\<close>\<close>

text \<open>
  \<open>generateNewNode\<close> builds an object literal and spreads \<open>options\<close>, a value of type
  \<open>any\<close>, over it, so that an option can replace any property, \<open>type\<close> and \<open>children\<close>
  included. Its result is therefore modelled as a plain JavaScript object: a list of
  properties in insertion order. Assigning a property that exists keeps its place,
  a new one goes to the end.
\<close>

datatype jsval =
    JNull
  | JBool bool
  | JNum int
  | JStr string
  | JArr "jsval list"
  | JObj "(string \<times> jsval) list"

text \<open>The string values of the enum \<open>ElementType\<close>.\<close>

fun ElementType_value :: "ElementType \<Rightarrow> string" where
  "ElementType_value Paragraph = ''paragraph''"
| "ElementType_value Heading = ''heading''"
| "ElementType_value ListOrdered = ''list-ordered''"
| "ElementType_value ListOrderedItem = ''list-ordered-item''"
| "ElementType_value ListUnordered = ''list-unordered''"
| "ElementType_value ListUnorderedItem = ''list-unordered-item''"
| "ElementType_value Blockquote = ''blockquote''"
| "ElementType_value Codeblock = ''codeblock''"
| "ElementType_value Image = ''image''"
| "ElementType_value Idea = ''idea''"

text \<open>\<open>{...obj, ...options}\<close>: the properties of \<open>options\<close> are assigned in order;
  \<open>options\<close> left out (\<open>None\<close>) adds nothing.\<close>

definition spread :: "(string \<times> jsval) list \<Rightarrow> (string \<times> jsval) list option \<Rightarrow> (string \<times> jsval) list" where
  "spread obj options =
     (case options of
        None \<Rightarrow> obj
      | Some kvs \<Rightarrow> foldl (\<lambda>acc kv. AList.update (fst kv) (snd kv) acc) obj kvs)"

definition generateNewNode ::
  "ElementType \<Rightarrow> string \<Rightarrow> (string \<times> jsval) list option \<Rightarrow> jsval" where
  "generateNewNode type content options =
     (if type = ListOrdered \<or> type = ListUnordered then
        JObj (spread
          [(''type'', JStr (ElementType_value type)),
           (''children'',
              JArr [JObj
                [(''type'',
                    JStr (ElementType_value
                      (if type = ListOrdered then ListOrderedItem else ListUnorderedItem))),
                 (''children'', JArr [JObj [(''text'', JStr content)]])]]),
           (''ideas'', JArr [])]
          options)
      else
        JObj (spread
          [(''type'', JStr (ElementType_value type)),
           (''children'', JArr [JObj [(''text'', JStr content)]]),
           (''ideas'', JArr [])]
          options))"

section \<open>Idea interfaces\<close>

text \<open>
  \<open>node.children\<close> read from a value that was obtained before some transforms ran, in
  the editor state \<open>now\<close>: the editor object shows its current children, a node object
  the children it had when it was read.
\<close>

fun children_now :: "Editor \<Rightarrow> slate_value \<Rightarrow> node list option" where
  "children_now now (Ed e) = Some (children now)"
| "children_now now (Nd n) = children_of (Nd n)"

text \<open>
  The \<open>forEach\<close> of \<open>addIdeasToNode\<close>. \<open>n\<close> is the node read once before the loop;
  each round evaluates \<open>node.children.length\<close> on it (a \<open>TypeError\<close> when the children
  are \<open>undefined\<close>) and inserts the idea at that index under \<open>path\<close>.
\<close>

fun addIdeas_forEach :: "Editor \<Rightarrow> int list \<Rightarrow> slate_value \<Rightarrow> node list \<Rightarrow> error + Editor" where
  "addIdeas_forEach editorState path n [] = Inr editorState"
| "addIdeas_forEach editorState path n (idea # ideas) =
     (case children_now editorState n of
        None \<Rightarrow> Inl TypeError
      | Some cs \<Rightarrow>
          (case insertNode editorState idea (path @ [int (length cs)]) of
             Inl e \<Rightarrow> Inl e
           | Inr editorState' \<Rightarrow> addIdeas_forEach editorState' path n ideas))"

definition addIdeasToNode :: "Editor \<Rightarrow> int list \<Rightarrow> node list \<Rightarrow> error + Editor" where
  "addIdeasToNode editorState path ideas =
     (case getNode editorState path of
        Inl e \<Rightarrow> Inl e
      | Inr n \<Rightarrow>
          if type_of n = Some Image \<or> type_of n = Some ListOrderedItem
             \<or> type_of n = Some ListUnorderedItem
          then Inr editorState
          else addIdeas_forEach editorState path n ideas)"

definition getIdeas :: "Editor \<Rightarrow> int list \<Rightarrow> error + node list" where
  "getIdeas editorState path =
     (case getNode editorState path of
        Inl e \<Rightarrow> Inl e
      | Inr n \<Rightarrow>
          if type_of n = Some Image then Inr []
          else
            (case children_of n of
               None \<Rightarrow> Inl TypeError
             | Some cs \<Rightarrow> Inr (filter isIdeaElement cs)))"

text \<open>The \<open>forEach\<close> of \<open>clearIdeas\<close>: the path of each idea is looked up in the
  editor as it is when the idea's turn comes.\<close>

fun clearIdeas_forEach :: "Editor \<Rightarrow> node list \<Rightarrow> error + Editor" where
  "clearIdeas_forEach editorState [] = Inr editorState"
| "clearIdeas_forEach editorState (idea # ideas) =
     (case findPath editorState idea of
        Inl e \<Rightarrow> Inl e
      | Inr p \<Rightarrow>
          (case deleteNode editorState p of
             Inl e \<Rightarrow> Inl e
           | Inr editorState' \<Rightarrow> clearIdeas_forEach editorState' ideas))"

definition clearIdeas :: "Editor \<Rightarrow> int list \<Rightarrow> error + Editor" where
  "clearIdeas editorState path =
     (case getIdeas editorState path of
        Inl e \<Rightarrow> Inl e
      | Inr ideas \<Rightarrow> clearIdeas_forEach editorState ideas)"

section \<open>Cursor and list interfaces\<close>

text \<open>\<open>getCursorPosition\<close> returns the pair \<open>{index, path}\<close>.\<close>

definition getCursorPosition :: "Editor \<Rightarrow> int \<times> int list" where
  "getCursorPosition editorState =
     (case selection editorState of
        Some sel \<Rightarrow> (point_offset (anchor sel), point_path (anchor sel))
      | None \<Rightarrow> (- 1, []))"

text \<open>The argument \<open>val: number[] | ElementType\<close> of the list predicates. Every item
  of a path is a number, so the test \<open>val.every(...)\<close> holds for each path.\<close>

datatype path_or_type = APath "int list" | AType ElementType

definition isNodeAList :: "Editor \<Rightarrow> path_or_type \<Rightarrow> error + bool" where
  "isNodeAList editorState val =
     (case val of
        AType t \<Rightarrow> Inr (t = ListOrdered \<or> t = ListUnordered)
      | APath p \<Rightarrow>
          (case getNodeType (Ed editorState) (Some p) of
             Inl e \<Rightarrow> Inl e
           | Inr t \<Rightarrow>
               if t = Some ListOrdered then Inr True
               else
                 (case getNodeType (Ed editorState) (Some p) of
                    Inl e \<Rightarrow> Inl e
                  | Inr t' \<Rightarrow> if t' = Some ListUnordered then Inr True else Inr False)))"

definition isNodeAListItem :: "Editor \<Rightarrow> path_or_type \<Rightarrow> error + bool" where
  "isNodeAListItem editorState val =
     (case val of
        AType t \<Rightarrow> Inr (t = ListOrderedItem \<or> t = ListUnorderedItem)
      | APath p \<Rightarrow>
          (case getNodeType (Ed editorState) (Some p) of
             Inl e \<Rightarrow> Inl e
           | Inr t \<Rightarrow>
               if t = Some ListOrderedItem then Inr True
               else
                 (case getNodeType (Ed editorState) (Some p) of
                    Inl e \<Rightarrow> Inl e
                  | Inr t' \<Rightarrow> if t' = Some ListUnorderedItem then Inr True else Inr False)))"

text \<open>\<open>xs[k]\<close> on a JavaScript array: \<open>undefined\<close> (\<open>None\<close>) past the end.\<close>

definition js_index :: "'a list \<Rightarrow> nat \<Rightarrow> 'a option" where
  "js_index xs k = (if k < length xs then Some (xs ! k) else None)"

text \<open>
  \<open>getIndexOfCurrentListItem\<close>: \<open>rootNode\<close> is the object \<open>getSelectedRootNode\<close>
  returns, which is truthy whatever it holds, so the test \<open>rootNode &&\<close> always passes
  and \<open>isNodeAList\<close> is asked about the path \<open>[rootNode.index]\<close>.
\<close>

definition getIndexOfCurrentListItem :: "Editor \<Rightarrow> error + int option" where
  "getIndexOfCurrentListItem editorState =
     (case getSelectedRootNode editorState of
        Inl e \<Rightarrow> Inl e
      | Inr rootNode \<Rightarrow>
          (case isNodeAList editorState (APath [snd rootNode]) of
             Inl e \<Rightarrow> Inl e
           | Inr True \<Rightarrow>
               (let cursorPath = snd (getCursorPosition editorState)
                in Inr (js_index cursorPath 1))
           | Inr False \<Rightarrow> Inr (Some (- 1))))"

definition isNodeWrappedInList :: "Editor \<Rightarrow> int list \<Rightarrow> error + bool" where
  "isNodeWrappedInList editorState path =
     (case getNodeParent editorState path of
        Inl e \<Rightarrow> Inl e
      | Inr parent \<Rightarrow> isNodeAList editorState (APath (snd parent)))"

text \<open>The wrapper \<open>{ type: type, children: [] }\<close> has none of the optional fields.\<close>

definition no_props :: ElementProps where
  "no_props = \<lparr>level = None, url = None, alt = None, promptName = None\<rparr>"

definition insertListWrapper :: "Editor \<Rightarrow> int list \<Rightarrow> ElementType \<Rightarrow> error + Editor" where
  "insertListWrapper editorState n type =
     (case isNodeAListItem editorState (APath n) of
        Inl e \<Rightarrow> Inl e
      | Inr False \<Rightarrow> Inr editorState
      | Inr True \<Rightarrow> Transforms_wrapNodes editorState type no_props n)"

declare getNodeContent.simps [simp del]

section \<open>Example documents\<close>

definition leaf :: "nat \<Rightarrow> string \<Rightarrow> node" where
  "leaf i s = Text i \<lparr>bold = None, italic = None, underline = None, strikethrough = None,
     code = None, link = None, text' = s\<rparr>"

definition idea :: "nat \<Rightarrow> string \<Rightarrow> node list \<Rightarrow> node" where
  "idea i p cs = Element i Idea (no_props\<lparr>promptName := Some p\<rparr>) cs"

text \<open>A paragraph with the two content children \<open>C1\<close> and \<open>C2\<close>.\<close>

definition paragraph_doc :: Editor where
  "paragraph_doc =
     \<lparr>children = [Element 0 Paragraph no_props [leaf 1 ''C1'', leaf 2 ''C2'']],
      selection = None\<rparr>"

definition image_doc :: Editor where
  "image_doc = \<lparr>children = [Element 0 Image no_props [leaf 1 []]], selection = None\<rparr>"

text \<open>A paragraph whose first child is an idea holding \<open>x\<close> and whose second child is
  the text \<open>b\<close>.\<close>

definition mixed_doc :: Editor where
  "mixed_doc =
     \<lparr>children = [Element 0 Paragraph no_props [idea 1 ''p'' [leaf 2 ''x''], leaf 3 ''b'']],
      selection = None\<rparr>"

lemmas eval_defs = getNode_def Editor_node_def getNodeType_def getNodeParent_def
  getNodeChildren_def getIdeas_def addIdeasToNode_def insertNode_def deleteNode_def
  Transforms_insertNodes_def Transforms_removeNodes_def Transforms_wrapNodes_def edit_parent_def
  clearIdeas_def findPath_def leaf_def idea_def paragraph_doc_def no_props_def

section \<open>Type classification\<close>

text \<open>
  Claim C9. \<open>getNodeType\<close> called with an editor as its first argument and no path
  neither returns \<open>null\<close> nor looks at a node: for every editor it throws the error
  "Path must be provided when the first argument is an Editor".
\<close>

theorem getNodeType_editor_without_path:
  "getNodeType (Ed editorState) None = Inl PathRequired"
  by (simp add: getNodeType_def)

text \<open>
  Claim C8, as stated: for every tree and every valid path, \<open>getNodeType(tree, path)\<close>
  equals \<open>getNodeType(getNode(tree, path))\<close>. The root path \<open>[]\<close> is valid and resolves
  to the editor itself. There the path overload finds that the editor is no element and
  returns \<open>null\<close>, while the node overload is handed an editor without a path and
  throws. So the two overloads differ at the root path.
\<close>

theorem getNodeType_overloads_counterexample:
  "\<not> (\<forall>editorState path v. getNode editorState path = Inr v \<longrightarrow>
        getNodeType (Ed editorState) (Some path) = getNodeType v None)"
proof
  assume a: "\<forall>editorState path v. getNode editorState path = Inr v \<longrightarrow>
        getNodeType (Ed editorState) (Some path) = getNodeType v None"
  have "getNode paragraph_doc [] = Inr (Ed paragraph_doc)"
    by (simp add: getNode_def Editor_node_def)
  with a have "getNodeType (Ed paragraph_doc) (Some []) = getNodeType (Ed paragraph_doc) None"
    by blast
  then show False
    by (simp add: getNodeType_def getNode_def Editor_node_def)
qed

lemma getNode_nonroot:
  assumes "path \<noteq> []" and "getNode editorState path = Inr v"
  shows "\<exists>n. v = Nd n"
proof -
  have "\<And>r. ps \<noteq> [] \<Longrightarrow> Node_get r ps = Inr v \<Longrightarrow> \<exists>n. v = Nd n" for ps
  proof (induction ps)
    case Nil then show ?case by simp
  next
    case (Cons p ps)
    show ?case
    proof (cases ps)
      case Nil
      with Cons.prems show ?thesis by (auto split: option.splits if_splits)
    next
      case (Cons q qs)
      with Cons.prems Cons.IH show ?thesis by (auto split: option.splits if_splits)
    qed
  qed
  with assms show ?thesis by (simp add: getNode_def Editor_node_def)
qed

text \<open>
  Claim C8, amended: for every tree and every valid path other than the root path, the
  path overload and the node overload of \<open>getNodeType\<close> agree, and the result is
  \<open>null\<close> exactly when the resolved value is not an element (a text leaf).
\<close>

theorem getNodeType_overloads_agree:
  assumes "path \<noteq> []" and "getNode editorState path = Inr v"
  shows "getNodeType (Ed editorState) (Some path) = getNodeType v None
     \<and> (getNodeType v None = Inr None \<longleftrightarrow> \<not> Element_isElement v)"
proof -
  from getNode_nonroot[OF assms] obtain n where "v = Nd n" ..
  with assms(2) show ?thesis
    by (cases n) (simp_all add: getNodeType_def)
qed

theorem getNodeType_overloads_agree_witness:
  "getNodeType (Ed paragraph_doc) (Some [0, 1]) = getNodeType (Nd (leaf 2 ''C2'')) None
   \<and> getNodeType (Nd (leaf 2 ''C2'')) None = Inr None
   \<and> getNodeType (Ed paragraph_doc) (Some [0]) = Inr (Some Paragraph)"
  using getNodeType_overloads_agree[of "[0, 1]" paragraph_doc "Nd (leaf 2 ''C2'')"]
  by (simp add: eval_defs)

section \<open>Node addressing\<close>

text \<open>
  Claim C10. \<open>getNodeParent\<close> on the empty path does not fail: it returns the document
  root (the editor) paired with the empty path. In general the parent path is the input
  path without its last segment, and the node returned is the one \<open>getNode\<close> finds
  there.
\<close>

theorem getNodeParent_root:
  "getNodeParent editorState [] = Inr (Ed editorState, [])
   \<and> (case getNodeParent editorState path of
        Inl e \<Rightarrow> getNode editorState (butlast path) = Inl e
      | Inr (parent, parentPath) \<Rightarrow>
          parentPath = butlast path \<and> getNode editorState parentPath = Inr parent)"
  by (auto simp add: getNodeParent_def getNode_def Editor_node_def Let_def split: sum.splits)

section \<open>Node generation\<close>

fun js_get :: "jsval \<Rightarrow> string \<Rightarrow> jsval option" where
  "js_get (JObj kvs) k = map_of kvs k"
| "js_get v k = None"

lemma map_of_spread:
  "map_of (foldl (\<lambda>acc kv. AList.update (fst kv) (snd kv) acc) obj kvs) k =
     (case map_of (rev kvs) k of Some v \<Rightarrow> Some v | None \<Rightarrow> map_of obj k)"
proof (induction kvs arbitrary: obj)
  case Nil
  then show ?case by simp
next
  case (Cons kv kvs)
  show ?case
    by (simp add: Cons.IH update_conv' map_add_def split: option.splits)
qed

text \<open>
  Claim C5. With no options, \<open>generateNewNode\<close> builds for the ordered and the
  unordered list type a container of that type whose single child is the matching
  list item whose single child is the text leaf holding the content, and for every other
  type a single node with that one text leaf; each of them carries \<open>ideas: []\<close>.
  Options are merged last: every property the options name has the options' value
  (the last one given), every other property the value of the node built without
  options.
\<close>

theorem generateNewNode_skeleton:
  "generateNewNode ListOrdered content None =
     JObj [(''type'', JStr ''list-ordered''),
           (''children'', JArr [JObj [(''type'', JStr ''list-ordered-item''),
                                      (''children'', JArr [JObj [(''text'', JStr content)]])]]),
           (''ideas'', JArr [])]
   \<and> generateNewNode ListUnordered content None =
     JObj [(''type'', JStr ''list-unordered''),
           (''children'', JArr [JObj [(''type'', JStr ''list-unordered-item''),
                                      (''children'', JArr [JObj [(''text'', JStr content)]])]]),
           (''ideas'', JArr [])]
   \<and> (type \<noteq> ListOrdered \<and> type \<noteq> ListUnordered \<longrightarrow>
        generateNewNode type content None =
          JObj [(''type'', JStr (ElementType_value type)),
                (''children'', JArr [JObj [(''text'', JStr content)]]),
                (''ideas'', JArr [])])
   \<and> js_get (generateNewNode type content (Some kvs)) k =
        (case map_of (rev kvs) k of
           Some v \<Rightarrow> Some v
         | None \<Rightarrow> js_get (generateNewNode type content None) k)"
  by (simp add: generateNewNode_def spread_def map_of_spread split: option.splits)

theorem generateNewNode_skeleton_witness:
  "generateNewNode ListUnordered ''milk'' None =
     JObj [(''type'', JStr ''list-unordered''),
           (''children'', JArr [JObj [(''type'', JStr ''list-unordered-item''),
                                      (''children'', JArr [JObj [(''text'', JStr ''milk'')]])]]),
           (''ideas'', JArr [])]
   \<and> generateNewNode Heading ''milk'' None =
          JObj [(''type'', JStr ''heading''),
                (''children'', JArr [JObj [(''text'', JStr ''milk'')]]),
                (''ideas'', JArr [])]
   \<and> js_get (generateNewNode Heading ''milk'' (Some [(''level'', JNum 2), (''children'', JArr [])]))
        ''children'' = Some (JArr [])"
  using generateNewNode_skeleton[of "''milk''" Heading
      "[(''level'', JNum 2), (''children'', JArr [])]" "''children''"]
  by simp

section \<open>Ideas\<close>

text \<open>
  Claim C3. When the node at the path is an image, an ordered list item or an unordered
  list item, \<open>addIdeasToNode\<close> raises nothing and returns the editor as it was, children
  and selection alike, whatever ideas it is given.
\<close>

theorem addIdeasToNode_declines:
  assumes "getNode editorState path = Inr n"
    and "type_of n = Some Image \<or> type_of n = Some ListOrderedItem
         \<or> type_of n = Some ListUnorderedItem"
  shows "addIdeasToNode editorState path ideas = Inr editorState"
  using assms by (auto simp add: addIdeasToNode_def)

theorem addIdeasToNode_declines_witness:
  "getNode image_doc [0] = Inr (Nd (Element 0 Image no_props [leaf 1 []]))
   \<and> addIdeasToNode image_doc [0] [idea 3 ''p1'' [leaf 4 ''I1'']] = Inr image_doc"
  using addIdeasToNode_declines[of image_doc "[0]"
      "Nd (Element 0 Image no_props [leaf 1 []])" "[idea 3 ''p1'' [leaf 4 ''I1'']]"]
  by (simp add: getNode_def Editor_node_def image_doc_def)

text \<open>
  Claim C1 says that attaching \<open>[I1, I2]\<close> to a node with children \<open>[C1, C2]\<close> gives
  \<open>[C1, C2, I1, I2]\<close>. \<open>addIdeasToNode\<close> reads the node once, before the loop, and every
  round takes \<open>node.children.length\<close> from that node. Slate does not change a node it
  has handed out, so the length stays 2: \<open>I1\<close> is inserted at index 2, then \<open>I2\<close> is
  inserted at index 2 again, in front of \<open>I1\<close>. The paragraph ends with the children
  \<open>[C1, C2, I2, I1]\<close> and \<open>getIdeas\<close> returns \<open>[I2, I1]\<close>.
\<close>

theorem addIdeasToNode_reverses_example:
  "\<exists>e. addIdeasToNode paragraph_doc [0]
          [idea 3 ''p1'' [leaf 4 ''I1''], idea 5 ''p2'' [leaf 6 ''I2'']] = Inr e
     \<and> getNodeChildren e [0] =
         Inr (Some [leaf 1 ''C1'', leaf 2 ''C2'',
                    idea 5 ''p2'' [leaf 6 ''I2''], idea 3 ''p1'' [leaf 4 ''I1'']])
     \<and> getIdeas e [0] = Inr [idea 5 ''p2'' [leaf 6 ''I2''], idea 3 ''p1'' [leaf 4 ''I1'']]"
  by (simp add: eval_defs)

section \<open>Text content\<close>

text \<open>The content claim C2 describes: the text of the leaves of a node in document
  order, with nothing taken from inside an idea.\<close>

fun nonIdeaText :: "node \<Rightarrow> string" where
  "nonIdeaText (Text i ft) = text' ft"
| "nonIdeaText (Element i t pr cs) = (if t = Idea then [] else concat (map nonIdeaText cs))"

lemma getNodeContent_mixed_doc: "getNodeContent mixed_doc [0] = Inr ''xb''"
  by code_simp

text \<open>
  Claim C2, as stated: \<open>getNodeContent\<close> returns the text of the leaves outside ideas
  and never text from inside an idea. \<open>getNodeContent\<close> has no test for ideas: a child
  without a \<open>text\<close> property is descended into whatever its type. For the paragraph of
  \<open>mixed_doc\<close>, whose children are an idea holding \<open>x\<close> and the text \<open>b\<close>, it returns
  \<open>xb\<close>, not \<open>b\<close>.
\<close>

theorem getNodeContent_skips_ideas_counterexample:
  "\<not> (\<forall>editorState path cs. getNodeChildren editorState path = Inr (Some cs) \<longrightarrow>
        getNodeContent editorState path = Inr (concat (map nonIdeaText cs)))"
proof
  assume a: "\<forall>editorState path cs. getNodeChildren editorState path = Inr (Some cs) \<longrightarrow>
        getNodeContent editorState path = Inr (concat (map nonIdeaText cs))"
  have "getNodeChildren mixed_doc [0] = Inr (Some [idea 1 ''p'' [leaf 2 ''x''], leaf 3 ''b''])"
    by (simp add: mixed_doc_def eval_defs)
  with a have "getNodeContent mixed_doc [0] =
      Inr (concat (map nonIdeaText [idea 1 ''p'' [leaf 2 ''x''], leaf 3 ''b'']))"
    by blast
  then show False
    by (simp add: getNodeContent_mixed_doc leaf_def idea_def)
qed

text \<open>The text of all leaves of a node in document order, ideas included. An image
  contributes nothing, since \<open>getNodeChildren\<close> gives it no children.\<close>

fun leafText :: "node \<Rightarrow> string" where
  "leafText (Text i ft) = text' ft"
| "leafText (Element i t pr cs) = (if t = Image then [] else concat (map leafText cs))"

text \<open>
  \<open>elements_first cs\<close>: among the children \<open>cs\<close> only the first may be an element, and
  the same holds inside that element (unless it is an image). For such a node the child
  at index 0, which is the one \<open>getNodeContent\<close> descends into, is the child the loop
  is at.
\<close>

fun is_text :: "node \<Rightarrow> bool" where
  "is_text (Text i ft) = True"
| "is_text (Element i t pr cs) = False"

fun elements_first :: "node list \<Rightarrow> bool" where
  "elements_first [] = True"
| "elements_first (Text i ft # cs) = list_all is_text cs"
| "elements_first (Element i t pr ks # cs) =
     (list_all is_text cs \<and> (t = Image \<or> elements_first ks))"

lemma content_loop_texts:
  assumes "list_all is_text ts"
  shows "foldl (\<lambda>content child.
            case content of
              Inl e \<Rightarrow> Inl e
            | Inr s \<Rightarrow>
                (case child of
                   Text i ft \<Rightarrow> Inr (s @ text' ft)
                 | Element i t pr cs \<Rightarrow> g s i t pr cs))
          (Inr s0) ts
         = Inr (s0 @ concat (map leafText ts))"
  using assms
proof (induction ts arbitrary: s0)
  case Nil
  then show ?case by simp
next
  case (Cons c ts)
  then show ?case by (cases c) simp_all
qed

lemma getNodeChildren_first:
  assumes "getNodeChildren editorState path = Inr (Some (Element i t pr ks # cs))"
  shows "getNodeChildren editorState (path @ [0]) = Inr (Some (if t = Image then [] else ks))"
proof -
  from assms obtain v where v: "Node_get (Ed editorState) path = Inr v"
    and c: "children_of v = Some (Element i t pr ks # cs)"
    by (auto simp add: getNodeChildren_def getNode_def Editor_node_def split: sum.splits if_splits)
  then have "Node_get (Ed editorState) (path @ [0]) = Inr (Nd (Element i t pr ks))"
    by (simp add: Node_get_append)
  then show ?thesis
    by (simp add: getNodeChildren_def getNode_def Editor_node_def)
qed

lemma getNodeContent_no_children:
  "getNodeChildren editorState path = Inr (Some []) \<Longrightarrow> getNodeContent editorState path = Inr []"
  by (subst getNodeContent.simps) simp

text \<open>
  Claim C2, amended: for every node in which an element child (an idea or any other
  element), if there is one, is the first child, and so on inside that child,
  \<open>getNodeContent\<close> returns the concatenation, in document order and with no
  separators, of the text of all its leaf descendants; the text inside idea children is
  part of the result.
\<close>

theorem getNodeContent_document_order:
  assumes "getNodeChildren editorState path = Inr (Some cs)" and "elements_first cs"
  shows "getNodeContent editorState path = Inr (concat (map leafText cs))"
  using assms
proof (induction cs arbitrary: path rule: elements_first.induct)
  case 1
  then show ?case by (simp add: getNodeContent_no_children)
next
  case (2 i ft cs)
  then show ?case
    by (subst getNodeContent.simps) (simp add: content_loop_texts)
next
  case (3 i t pr ks cs)
  from "3.prems"(2) have texts: "list_all is_text cs" and sh: "t = Image \<or> elements_first ks"
    by simp_all
  have first: "getNodeContent editorState (path @ [0]) = Inr (leafText (Element i t pr ks))"
  proof (cases "t = Image")
    case True
    with getNodeChildren_first[OF "3.prems"(1)] show ?thesis
      by (simp add: getNodeContent_no_children)
  next
    case False
    with getNodeChildren_first[OF "3.prems"(1)]
    have "getNodeChildren editorState (path @ [0]) = Inr (Some ks)" by simp
    moreover from False sh have "elements_first ks" by simp
    ultimately have "getNodeContent editorState (path @ [0]) = Inr (concat (map leafText ks))"
      using False by (intro "3.IH") simp_all
    with False show ?thesis by simp
  qed
  show ?case
    by (subst getNodeContent.simps) (simp add: "3.prems"(1) first content_loop_texts[OF texts])
qed

theorem getNodeContent_document_order_witness:
  "getNodeChildren mixed_doc [0] = Inr (Some [idea 1 ''p'' [leaf 2 ''x''], leaf 3 ''b''])
   \<and> elements_first [idea 1 ''p'' [leaf 2 ''x''], leaf 3 ''b'']
   \<and> getNodeContent mixed_doc [0] = Inr ''xb''"
  using getNodeContent_document_order[of mixed_doc "[0]" "[idea 1 ''p'' [leaf 2 ''x''], leaf 3 ''b'']"]
  by (simp add: mixed_doc_def eval_defs)

section \<open>Children along a path\<close>

text \<open>
  \<open>kids_at cs path\<close> is the children list of the node that \<open>path\<close> leads to from a
  root with the children \<open>cs\<close>; \<open>kids_val\<close> is the same read through \<open>Node_get\<close>. The
  lemmas relate the engine's edits to what \<open>getNode\<close> finds afterwards.
\<close>

fun kids_at :: "node list \<Rightarrow> int list \<Rightarrow> node list option" where
  "kids_at cs [] = Some cs"
| "kids_at cs (p # ps) =
     (if 0 \<le> p \<and> nat p < length cs then
        (case cs ! nat p of
           Text i ft \<Rightarrow> None
         | Element i t pr ks \<Rightarrow> kids_at ks ps)
      else None)"

definition kids_val :: "slate_value \<Rightarrow> int list \<Rightarrow> node list option" where
  "kids_val r path = (case Node_get r path of Inl e \<Rightarrow> None | Inr v \<Rightarrow> children_of v)"

lemma kids_val_kids_at:
  "children_of r = Some cs \<Longrightarrow> kids_val r path = kids_at cs path"
proof (induction path arbitrary: r cs)
  case Nil
  then show ?case by (simp add: kids_val_def)
next
  case (Cons p ps)
  show ?case
  proof (cases "0 \<le> p \<and> nat p < length cs")
    case False
    with Cons.prems show ?thesis by (auto simp add: kids_val_def)
  next
    case True
    show ?thesis
    proof (cases "cs ! nat p")
      case (Text i ft)
      with True Cons.prems show ?thesis
        by (cases ps) (simp_all add: kids_val_def)
    next
      case (Element i t pr ks)
      have "kids_val (Nd (Element i t pr ks)) ps = kids_at ks ps"
        by (rule Cons.IH) simp
      with True Element Cons.prems show ?thesis
        by (simp add: kids_val_def)
    qed
  qed
qed

lemma kids_at_editor:
  "kids_val (Ed editorState) path = kids_at (children editorState) path"
  by (rule kids_val_kids_at) simp

lemma Node_get_child:
  assumes "kids_val r path = Some ks" and "0 \<le> k" and "nat k < length ks"
  shows "Node_get r (path @ [k]) = Inr (Nd (ks ! nat k))"
  using assms by (auto simp add: kids_val_def Node_get_append split: sum.splits)

lemma Node_get_snoc:
  assumes "Node_get r (pp @ [k]) = Inr v"
  shows "\<exists>ks. kids_val r pp = Some ks \<and> 0 \<le> k \<and> nat k < length ks \<and> v = Nd (ks ! nat k)"
  using assms
  by (auto simp add: kids_val_def Node_get_append split: sum.splits option.splits if_splits)

lemma modify_at_kids:
  assumes "kids_at cs path = Some old" and "f old = Inr new"
  shows "\<exists>cs'. modify_at f cs path = Inr cs' \<and> kids_at cs' path = Some new"
  using assms
proof (induction path arbitrary: cs)
  case Nil
  then show ?case by simp
next
  case (Cons p ps)
  from Cons.prems(1) have rng: "0 \<le> p \<and> nat p < length cs"
    by (simp split: if_splits)
  with Cons.prems(1) obtain i t pr ks where el: "cs ! nat p = Element i t pr ks"
    and ks: "kids_at ks ps = Some old"
    by (auto split: node.splits)
  from Cons.IH[OF ks Cons.prems(2)] obtain ks' where
    "modify_at f ks ps = Inr ks'" "kids_at ks' ps = Some new" by blast
  with rng el show ?case by simp
qed

lemma edit_parent_kids:
  assumes "kids_val (Ed editorState) pp = Some ks" and "0 \<le> k" and "f (nat k) ks = Inr new"
  shows "\<exists>e. edit_parent f editorState (pp @ [k]) = Inr e
           \<and> kids_val (Ed e) pp = Some new \<and> selection e = selection editorState"
proof -
  from assms(1) have "kids_at (children editorState) pp = Some ks"
    by (simp add: kids_at_editor)
  from modify_at_kids[where f = "f (nat k)", OF this assms(3)] obtain cs' where
    m: "modify_at (f (nat k)) (children editorState) pp = Inr cs'"
    and k: "kids_at cs' pp = Some new" by blast
  have "kids_val (Ed (editorState\<lparr>children := cs'\<rparr>)) pp = Some new"
    using k by (simp add: kids_at_editor)
  with m assms(2) show ?thesis
    by (simp add: edit_parent_def)
qed

lemma isNodeAListItem_path:
  assumes "getNode editorState path = Inr v"
  shows "isNodeAListItem editorState (APath path) =
           Inr (type_of v = Some ListOrderedItem \<or> type_of v = Some ListUnorderedItem)"
  using assms
  by (cases v rule: type_of.cases) (auto simp add: isNodeAListItem_def getNodeType_def)

section \<open>Attaching ideas, in general\<close>

text \<open>
  What the example of claim C1 shows holds for every node below the root: the length
  read in each round is that of the children the node had before the loop, so each idea
  goes in front of the ideas inserted before it, and the children end as the former
  children followed by the ideas in reverse order. At the root path the node is the
  editor itself, whose children are read anew in each round, and the ideas are appended
  in the order given.
\<close>

lemma insertNode_child:
  assumes "kids_val (Ed editorState) path = Some ks" and "j \<le> length ks"
  shows "\<exists>e. insertNode editorState n (path @ [int j]) = Inr e
           \<and> kids_val (Ed e) path = Some (take j ks @ n # drop j ks)
           \<and> selection e = selection editorState"
proof -
  let ?f = "\<lambda>k cs. if k \<le> length cs then Inr (take k cs @ n # drop k cs) else Inl OutOfBounds"
  have "?f (nat (int j)) ks = Inr (take j ks @ n # drop j ks)"
    using assms(2) by simp
  from edit_parent_kids[where f = ?f, OF assms(1) _ this] show ?thesis
    unfolding insertNode_def Transforms_insertNodes_def by auto
qed

lemma addIdeas_forEach_stale:
  assumes "kids_val (Ed editorState) path = Some (cs @ later)"
  shows "\<exists>e. addIdeas_forEach editorState path (Nd (Element i t pr cs)) ideas = Inr e
           \<and> kids_val (Ed e) path = Some (cs @ rev ideas @ later)
           \<and> selection e = selection editorState"
  using assms
proof (induction ideas arbitrary: editorState later)
  case Nil
  then show ?case by simp
next
  case (Cons x ideas)
  from insertNode_child[OF Cons.prems, of "length cs" x] obtain e1 where
    i1: "insertNode editorState x (path @ [int (length cs)]) = Inr e1"
    and k1: "kids_val (Ed e1) path = Some (cs @ x # later)"
    and s1: "selection e1 = selection editorState" by auto
  from Cons.IH[OF k1] obtain e where
    "addIdeas_forEach e1 path (Nd (Element i t pr cs)) ideas = Inr e"
    "kids_val (Ed e) path = Some (cs @ rev ideas @ x # later)"
    "selection e = selection e1" by blast
  with i1 s1 show ?case by simp
qed

lemma addIdeasToNode_reverses:
  assumes "getNode editorState path = Inr (Nd (Element i t pr cs))"
    and "t \<noteq> Image" and "t \<noteq> ListOrderedItem" and "t \<noteq> ListUnorderedItem"
  shows "\<exists>e v. addIdeasToNode editorState path ideas = Inr e
           \<and> getNode e path = Inr v
           \<and> children_of v = Some (cs @ rev ideas)"
proof -
  from assms(1) have k: "kids_val (Ed editorState) path = Some (cs @ [])"
    by (simp add: kids_val_def getNode_def Editor_node_def)
  from addIdeas_forEach_stale[OF k, of i t pr ideas] obtain e where
    a: "addIdeas_forEach editorState path (Nd (Element i t pr cs)) ideas = Inr e"
    and ke: "kids_val (Ed e) path = Some (cs @ rev ideas)" by auto
  from ke obtain v where "getNode e path = Inr v" and "children_of v = Some (cs @ rev ideas)"
    by (auto simp add: kids_val_def getNode_def Editor_node_def split: sum.splits)
  with a assms show ?thesis by (simp add: addIdeasToNode_def)
qed

lemma addIdeas_forEach_root:
  "\<exists>e. addIdeas_forEach editorState [] (Ed r) ideas = Inr e
     \<and> children e = children editorState @ ideas
     \<and> selection e = selection editorState"
proof (induction ideas arbitrary: editorState)
  case Nil
  then show ?case by simp
next
  case (Cons x ideas)
  have "insertNode editorState x [int (length (children editorState))]
      = Inr (editorState\<lparr>children := children editorState @ [x]\<rparr>)"
    by (simp add: insertNode_def Transforms_insertNodes_def edit_parent_def)
  with Cons.IH[of "editorState\<lparr>children := children editorState @ [x]\<rparr>"]
  show ?case by auto
qed

section \<open>Lists\<close>

text \<open>
  Claim C6 says that \<open>getIndexOfCurrentListItem\<close> returns \<open>-1\<close> when no selection is
  active. With no selection \<open>getSelectedRootNode\<close> returns \<open>{node: null, index: -1}\<close>,
  an object, so the guard \<open>rootNode &&\<close> passes and \<open>isNodeAList\<close> looks up the path
  \<open>[-1]\<close>, where there is no node: the lookup throws, for every document.
\<close>

theorem getIndexOfCurrentListItem_no_selection:
  "getIndexOfCurrentListItem (editorState\<lparr>selection := None\<rparr>) = Inl OutOfBounds"
  by (simp add: getIndexOfCurrentListItem_def getSelectedRootNode_def isNodeAList_def
      getNodeType_def getNode_def Editor_node_def)

text \<open>
  With a selection whose anchor path starts at a root child that exists, the function
  does what claim C6 describes: the second segment of the anchor path when that root
  child is a list, \<open>-1\<close> otherwise.
\<close>

lemma getIndexOfCurrentListItem_selection:
  assumes "selection editorState = Some sel"
    and "point_path (anchor sel) = rootIndex # rest"
    and "getNode editorState [rootIndex] = Inr v"
  shows "getIndexOfCurrentListItem editorState =
           (if type_of v = Some ListOrdered \<or> type_of v = Some ListUnordered
            then Inr (js_index (rootIndex # rest) 1) else Inr (Some (- 1)))"
  using assms
  by (cases v rule: type_of.cases)
     (auto simp add: getIndexOfCurrentListItem_def getSelectedRootNode_def isNodeAList_def
        getNodeType_def getCursorPosition_def getNode_def Editor_node_def)

text \<open>A paragraph followed by an ordered list item that stands outside a list.\<close>

definition list_item_doc :: Editor where
  "list_item_doc =
     \<lparr>children = [Element 0 Paragraph no_props [leaf 1 ''a''],
                  Element 2 ListOrderedItem no_props [leaf 3 ''x'']],
      selection = None\<rparr>"

text \<open>
  Claim C7. When the node at the path is not a list item (no element of type
  \<open>list-ordered-item\<close> or \<open>list-unordered-item\<close>), \<open>insertListWrapper\<close> returns the
  editor unchanged. When it is a list item, the editor afterwards holds at that path a
  new container of the given type, with no other fields, whose single child is the item;
  the item is found one level deeper, at index 0 under the path; the parent is still at
  the parent path and its children are the former ones with the item replaced by the
  container; the selection is untouched.
\<close>

theorem insertListWrapper_frame:
  "(getNode editorState path = Inr v
      \<and> type_of v \<noteq> Some ListOrderedItem \<and> type_of v \<noteq> Some ListUnorderedItem
     \<longrightarrow> insertListWrapper editorState path type = Inr editorState)
   \<and> (getNode editorState path = Inr (Nd item)
      \<and> (type_of (Nd item) = Some ListOrderedItem \<or> type_of (Nd item) = Some ListUnorderedItem)
      \<and> getNodeParent editorState path = Inr (parent, parentPath)
     \<longrightarrow> (\<exists>e container parent' siblings.
           insertListWrapper editorState path type = Inr e
         \<and> container = Element (fresh_ident editorState) type no_props [item]
         \<and> getNode e path = Inr (Nd container)
         \<and> getNode e (path @ [0]) = Inr (Nd item)
         \<and> children_of parent = Some siblings
         \<and> getNodeParent e path = Inr (parent', parentPath)
         \<and> children_of parent' = Some (siblings[nat (last path) := container])
         \<and> selection e = selection editorState))"
proof (intro conjI impI)
  assume "getNode editorState path = Inr v
      \<and> type_of v \<noteq> Some ListOrderedItem \<and> type_of v \<noteq> Some ListUnorderedItem"
  then show "insertListWrapper editorState path type = Inr editorState"
    by (simp add: insertListWrapper_def isNodeAListItem_path)
next
  assume a: "getNode editorState path = Inr (Nd item)
      \<and> (type_of (Nd item) = Some ListOrderedItem \<or> type_of (Nd item) = Some ListUnorderedItem)
      \<and> getNodeParent editorState path = Inr (parent, parentPath)"
  then have g: "Node_get (Ed editorState) path = Inr (Nd item)"
    by (simp add: getNode_def Editor_node_def)
  then have ne: "path \<noteq> []" by auto
  define pp where "pp = butlast path"
  define k where "k = last path"
  from ne have path: "path = pp @ [k]" by (simp add: pp_def k_def)
  from Node_get_snoc[OF g[unfolded path]] obtain ks where
    ks: "kids_val (Ed editorState) pp = Some ks" and k0: "0 \<le> k" and kl: "nat k < length ks"
    and it: "item = ks ! nat k" by auto
  let ?c = "Element (fresh_ident editorState) type no_props [item]"
  let ?f = "\<lambda>k cs. if k < length cs
          then Inr (cs[k := Element (fresh_ident editorState) type no_props [cs ! k]])
          else Inl OutOfBounds"
  have "?f (nat k) ks = Inr (ks[nat k := ?c])"
    using kl it by simp
  from edit_parent_kids[where f = ?f, OF ks k0 this] obtain e where
    e: "Transforms_wrapNodes editorState type no_props path = Inr e"
    and ke: "kids_val (Ed e) pp = Some (ks[nat k := ?c])"
    and se: "selection e = selection editorState"
    unfolding Transforms_wrapNodes_def path by blast
  have w: "insertListWrapper editorState path type = Inr e"
    using a e by (simp add: insertListWrapper_def isNodeAListItem_path)
  have gc: "getNode e path = Inr (Nd ?c)"
    using Node_get_child[OF ke k0] kl by (simp add: getNode_def Editor_node_def path)
  have gi: "getNode e (path @ [0]) = Inr (Nd item)"
    using gc by (simp add: getNode_def Editor_node_def Node_get_append)
  from a have pa: "Node_get (Ed editorState) pp = Inr parent" and ppp: "parentPath = pp"
    by (auto simp add: getNodeParent_def getNode_def Editor_node_def pp_def Let_def split: sum.splits)
  from pa ks have cp: "children_of parent = Some ks" by (simp add: kids_val_def)
  from ke obtain parent' where pe: "Node_get (Ed e) pp = Inr parent'"
    and cpe: "children_of parent' = Some (ks[nat k := ?c])"
    by (auto simp add: kids_val_def split: sum.splits)
  have gp: "getNodeParent e path = Inr (parent', parentPath)"
    using pe ppp by (simp add: getNodeParent_def getNode_def Editor_node_def pp_def)
  from w gc gi cp gp cpe se
  show "\<exists>e container parent' siblings.
           insertListWrapper editorState path type = Inr e
         \<and> container = Element (fresh_ident editorState) type no_props [item]
         \<and> getNode e path = Inr (Nd container)
         \<and> getNode e (path @ [0]) = Inr (Nd item)
         \<and> children_of parent = Some siblings
         \<and> getNodeParent e path = Inr (parent', parentPath)
         \<and> children_of parent' = Some (siblings[nat (last path) := container])
         \<and> selection e = selection editorState"
    unfolding k_def by blast
qed

theorem insertListWrapper_frame_witness:
  "insertListWrapper list_item_doc [0] ListOrdered = Inr list_item_doc
   \<and> (\<exists>e. insertListWrapper list_item_doc [1] ListOrdered = Inr e
        \<and> getNode e [1] =
            Inr (Nd (Element 4 ListOrdered no_props [Element 2 ListOrderedItem no_props [leaf 3 ''x'']]))
        \<and> getNode e [1, 0] = Inr (Nd (Element 2 ListOrderedItem no_props [leaf 3 ''x'']))
        \<and> getNode e [0] = Inr (Nd (Element 0 Paragraph no_props [leaf 1 ''a''])))"
  using insertListWrapper_frame[of list_item_doc "[0]" "Nd (Element 0 Paragraph no_props [leaf 1 ''a''])"
      ListOrdered "Element 0 Paragraph no_props [leaf 1 ''a'']" "Ed list_item_doc" "[]"]
    insertListWrapper_frame[of list_item_doc "[1]" "Nd (Element 2 ListOrderedItem no_props [leaf 3 ''x''])"
      ListOrdered "Element 2 ListOrderedItem no_props [leaf 3 ''x'']" "Ed list_item_doc" "[]"]
  by (simp add: list_item_doc_def getNode_def Editor_node_def getNodeParent_def fresh_ident_def
      idents_list_def leaf_def insertListWrapper_def isNodeAListItem_def getNodeType_def
      Transforms_wrapNodes_def edit_parent_def no_props_def)

section \<open>Clearing ideas\<close>

text \<open>
  The tags of a tree are distinct when every node object occurs in it once. Then
  \<open>findPath\<close> returns the path at which the object stands, and removing a node keeps
  the tags distinct.
\<close>

lemma idents_list_simps [simp]:
  "idents_list [] = []"
  "idents_list (c # cs) = idents c @ idents_list cs"
  "idents_list (xs @ ys) = idents_list xs @ idents_list ys"
  by (simp_all add: idents_list_def)

lemma idents_Element [simp]: "idents (Element i t pr cs) = i # idents_list cs"
  by (simp add: idents_list_def)

declare idents.simps(2) [simp del]

lemma idents_list_nth_mem: "j < length cs \<Longrightarrow> x \<in> set (idents (cs ! j)) \<Longrightarrow> x \<in> set (idents_list cs)"
  by (induction cs arbitrary: j) (auto simp add: nth_Cons split: nat.splits)

lemma ident_in_idents: "ident n \<in> set (idents n)"
  by (cases n) simp_all

lemma findPath_absent:
  "i \<notin> set (idents n) \<Longrightarrow> findPath_node i n = None"
  "i \<notin> set (idents_list cs) \<Longrightarrow> findPath_list i cs k = None"
  by (induction i n and i cs k rule: findPath_node_findPath_list.induct)
     (auto simp add: idents_Element split: option.splits)

lemma findPath_node_self: "findPath_node (ident n) n = Some []"
  by (cases n) simp_all

lemma findPath_list_nth:
  assumes "distinct (idents_list cs)" and "j < length cs" and "findPath_node i (cs ! j) = Some r"
  shows "findPath_list i cs k = Some ((k + int j) # r)"
  using assms
proof (induction cs arbitrary: j k)
  case Nil
  then show ?case by simp
next
  case (Cons c cs)
  show ?case
  proof (cases j)
    case 0
    with Cons.prems show ?thesis by simp
  next
    case (Suc j')
    with Cons.prems have r: "findPath_node i (cs ! j') = Some r" and l: "j' < length cs" by simp_all
    then have "i \<in> set (idents (cs ! j'))"
      using findPath_absent(1)[of i "cs ! j'"] by auto
    with l have "i \<in> set (idents_list cs)"
      by (rule idents_list_nth_mem)
    with Cons.prems(1) have "i \<notin> set (idents c)" by auto
    then have "findPath_node i c = None" by (rule findPath_absent(1))
    moreover from Cons.prems(1) have "distinct (idents_list cs)" by simp
    from Cons.IH[OF this l r] have "findPath_list i cs (k + 1) = Some ((k + 1 + int j') # r)" .
    ultimately show ?thesis using Suc by simp
  qed
qed

lemma idents_nth_subset:
  "j < length cs \<Longrightarrow> set (idents (cs ! j)) \<subseteq> set (idents_list cs)"
  by (auto intro: idents_list_nth_mem)

lemma distinct_idents_nth:
  "distinct (idents_list cs) \<Longrightarrow> j < length cs \<Longrightarrow> distinct (idents (cs ! j))"
proof (induction cs arbitrary: j)
  case Nil then show ?case by simp
next
  case (Cons c cs) then show ?case by (cases j) auto
qed

lemma kids_at_idents:
  "kids_at cs path = Some ks \<Longrightarrow> set (idents_list ks) \<subseteq> set (idents_list cs)"
proof (induction path arbitrary: cs)
  case Nil then show ?case by simp
next
  case (Cons p ps)
  from Cons.prems have rng: "0 \<le> p \<and> nat p < length cs" by (simp split: if_splits)
  with Cons.prems obtain i t pr cs' where el: "cs ! nat p = Element i t pr cs'"
    and k: "kids_at cs' ps = Some ks" by (auto split: node.splits)
  from Cons.IH[OF k] have "set (idents_list ks) \<subseteq> set (idents_list cs')" .
  also have "\<dots> \<subseteq> set (idents (cs ! nat p))" by (auto simp add: el idents_Element)
  also have "\<dots> \<subseteq> set (idents_list cs)" using rng by (simp add: idents_nth_subset)
  finally show ?case .
qed

lemma findPath_list_kids:
  assumes "distinct (idents_list cs)" and "kids_at cs path = Some ks" and "j < length ks"
  shows "findPath_list (ident (ks ! j)) cs 0 = Some (path @ [int j])"
  using assms
proof (induction path arbitrary: cs)
  case Nil
  then have "cs = ks" by simp
  with Nil findPath_list_nth[of ks j "ident (ks ! j)" "[]" 0] show ?case
    by (simp add: findPath_node_self)
next
  case (Cons p ps)
  from Cons.prems(2) have rng: "0 \<le> p \<and> nat p < length cs" by (simp split: if_splits)
  with Cons.prems(2) obtain i t pr cs' where el: "cs ! nat p = Element i t pr cs'"
    and k: "kids_at cs' ps = Some ks" by (auto split: node.splits)
  from distinct_idents_nth[OF Cons.prems(1)] rng have d: "distinct (idents (cs ! nat p))" by simp
  then have d': "distinct (idents_list cs')" and ni: "i \<notin> set (idents_list cs')"
    by (simp_all add: el idents_Element)
  have "ident (ks ! j) \<in> set (idents_list ks)"
    using idents_nth_subset[OF Cons.prems(3)] ident_in_idents by blast
  with kids_at_idents[OF k] ni have "ident (ks ! j) \<noteq> i" by auto
  with Cons.IH[OF d' k Cons.prems(3)]
  have "findPath_node (ident (ks ! j)) (cs ! nat p) = Some (ps @ [int j])"
    by (simp add: el)
  from findPath_list_nth[OF Cons.prems(1) _ this, of 0] rng show ?case by simp
qed

lemma subseq_idents_update:
  assumes "j < length cs" and "subseq (idents x) (idents (cs ! j))"
  shows "subseq (idents_list (cs[j := x])) (idents_list cs)"
proof -
  have "idents_list (cs[j := x]) = idents_list (take j cs) @ idents x @ idents_list (drop (Suc j) cs)"
    using assms(1) by (simp add: upd_conv_take_nth_drop)
  moreover have "idents_list cs = idents_list (take j cs) @ idents (cs ! j) @ idents_list (drop (Suc j) cs)"
    using assms(1) by (subst id_take_nth_drop[OF assms(1)]) simp
  ultimately show ?thesis
    using assms(2) by (simp add: list_emb_append_mono)
qed

lemma modify_at_subseq:
  assumes "\<And>old new. f old = Inr new \<Longrightarrow> subseq (idents_list new) (idents_list old)"
    and "modify_at f cs path = Inr cs'"
  shows "subseq (idents_list cs') (idents_list cs)"
  using assms(2)
proof (induction path arbitrary: cs cs')
  case Nil
  then show ?case using assms(1) by simp
next
  case (Cons p ps)
  from Cons.prems have rng: "0 \<le> p \<and> nat p < length cs" by (simp split: if_splits)
  with Cons.prems obtain i t pr ks ks' where el: "cs ! nat p = Element i t pr ks"
    and m: "modify_at f ks ps = Inr ks'" and cs': "cs' = cs[nat p := Element i t pr ks']"
    by (auto split: node.splits sum.splits)
  from Cons.IH[OF m] have "subseq (idents (Element i t pr ks')) (idents (cs ! nat p))"
    by (simp add: el idents_Element)
  with rng show ?case unfolding cs' by (simp add: subseq_idents_update)
qed

lemma subseq_idents_remove:
  assumes "k < length cs"
  shows "subseq (idents_list (take k cs @ drop (Suc k) cs)) (idents_list cs)"
proof -
  have "idents_list cs = idents_list (take k cs) @ idents (cs ! k) @ idents_list (drop (Suc k) cs)"
    by (subst id_take_nth_drop[OF assms]) simp
  moreover have "subseq (idents_list (take k cs) @ idents_list (drop (Suc k) cs))
      (idents_list (take k cs) @ idents (cs ! k) @ idents_list (drop (Suc k) cs))"
    by (intro list_emb_append_mono list_emb_append2) simp_all
  ultimately show ?thesis by simp
qed

lemma subseq_distinct:
  assumes "subseq xs ys" and "distinct ys"
  shows "distinct xs"
proof -
  from assms(1) obtain N where "xs = nths ys N" by (auto simp add: subseq_conv_nths)
  with assms(2) show ?thesis by (simp add: distinct_nthsI)
qed

lemma edit_parent_subseq:
  assumes "edit_parent f editorState at = Inr e"
    and "\<And>k old new. f k old = Inr new \<Longrightarrow> subseq (idents_list new) (idents_list old)"
  shows "subseq (idents_list (children e)) (idents_list (children editorState))"
proof -
  from assms(1) obtain cs' where
    m: "modify_at (f (nat (last at))) (children editorState) (butlast at) = Inr cs'"
    and e: "e = editorState\<lparr>children := cs'\<rparr>"
    by (auto simp add: edit_parent_def split: if_splits sum.splits)
  from modify_at_subseq[where f = "f (nat (last at))", OF assms(2) m] e show ?thesis by simp
qed

lemma deleteNode_child:
  assumes "kids_val (Ed editorState) path = Some ks" and "j < length ks"
  shows "\<exists>e. deleteNode editorState (path @ [int j]) = Inr e
           \<and> kids_val (Ed e) path = Some (take j ks @ drop (Suc j) ks)
           \<and> subseq (idents_list (children e)) (idents_list (children editorState))
           \<and> selection e = selection editorState"
proof -
  let ?f = "\<lambda>k cs. if k < length cs then Inr (take k cs @ drop (Suc k) cs) else Inl OutOfBounds"
  have "?f (nat (int j)) ks = Inr (take j ks @ drop (Suc j) ks)"
    using assms(2) by simp
  from edit_parent_kids[where f = ?f, OF assms(1) _ this] obtain e where
    e: "deleteNode editorState (path @ [int j]) = Inr e"
    and k: "kids_val (Ed e) path = Some (take j ks @ drop (Suc j) ks)"
    and s: "selection e = selection editorState"
    unfolding deleteNode_def Transforms_removeNodes_def by auto
  have "subseq (idents_list (children e)) (idents_list (children editorState))"
    by (rule edit_parent_subseq[OF e[unfolded deleteNode_def Transforms_removeNodes_def]])
       (auto split: if_splits intro: subseq_idents_remove)
  with e k s show ?thesis by blast
qed

lemma findPath_child:
  assumes "distinct (idents_list (children editorState))"
    and "kids_val (Ed editorState) path = Some ks" and "j < length ks"
  shows "findPath editorState (ks ! j) = Inr (path @ [int j])"
  using findPath_list_kids[OF assms(1) _ assms(3), of path] assms(2)
  by (simp add: findPath_def kids_at_editor)

lemma clearIdeas_forEach_clears:
  assumes "distinct (idents_list (children editorState))"
    and "kids_val (Ed editorState) path = Some ks"
  shows "\<exists>e. clearIdeas_forEach editorState (filter isIdeaElement ks) = Inr e
           \<and> kids_val (Ed e) path = Some (filter (\<lambda>c. \<not> isIdeaElement c) ks)
           \<and> selection e = selection editorState"
  using assms
proof (induction "length (filter isIdeaElement ks)" arbitrary: editorState ks)
  case 0
  then have "filter isIdeaElement ks = []" by simp
  moreover from this have "filter (\<lambda>c. \<not> isIdeaElement c) ks = ks"
    by (simp add: filter_empty_conv)
  ultimately show ?case using "0.prems" by simp
next
  case (Suc n)
  then obtain i rest where f: "filter isIdeaElement ks = i # rest"
    by (cases "filter isIdeaElement ks") auto
  then obtain us vs where ks: "ks = us @ i # vs" and us: "\<forall>u\<in>set us. \<not> isIdeaElement u"
    and i: "isIdeaElement i" and rest: "rest = filter isIdeaElement vs"
    by (auto simp add: filter_eq_Cons_iff)
  have j: "length us < length ks" and nth: "ks ! length us = i" by (simp_all add: ks)
  from findPath_child[OF Suc.prems(1,2) j]
  have fp: "findPath editorState i = Inr (path @ [int (length us)])" by (simp add: nth)
  from deleteNode_child[OF Suc.prems(2) j] obtain e1 where
    d: "deleteNode editorState (path @ [int (length us)]) = Inr e1"
    and k1: "kids_val (Ed e1) path = Some (us @ vs)"
    and s1: "subseq (idents_list (children e1)) (idents_list (children editorState))"
    and sel1: "selection e1 = selection editorState"
    by (auto simp add: ks)
  from s1 Suc.prems(1) have d1: "distinct (idents_list (children e1))"
    by (rule subseq_distinct)
  have f1: "filter isIdeaElement (us @ vs) = rest" using us rest by simp
  with Suc.hyps(2) f have "n = length (filter isIdeaElement (us @ vs))" by simp
  from Suc.hyps(1)[OF this d1 k1] obtain e where
    "clearIdeas_forEach e1 (filter isIdeaElement (us @ vs)) = Inr e"
    "kids_val (Ed e) path = Some (filter (\<lambda>c. \<not> isIdeaElement c) (us @ vs))"
    "selection e = selection e1" by blast
  with fp d f f1 sel1 i show ?case by (simp add: ks)
qed

text \<open>A paragraph with two content children and two ideas between and after them.\<close>

definition ideas_doc :: Editor where
  "ideas_doc =
     \<lparr>children = [Element 0 Paragraph no_props
         [leaf 1 ''C1'', idea 2 ''p1'' [leaf 3 ''I1''], leaf 4 ''C2'', idea 5 ''p2'' [leaf 6 ''I2'']]],
      selection = None\<rparr>"

text \<open>
  Claim C4. Let the path lead to a node that has children (an element or the root), in
  a tree in which every node object occurs once. Then \<open>clearIdeas\<close> succeeds; each
  round looks up the path of its idea in the editor as the earlier deletions have left
  it and deletes the node there. Afterwards \<open>getIdeas\<close> on the same path returns the
  empty list and a second \<open>clearIdeas\<close> returns the editor unchanged. Unless the node
  is an image, its children afterwards are the former children that are not ideas, in
  their order.
\<close>

theorem clearIdeas_idempotent:
  assumes "distinct (idents_list (children editorState))"
    and "getNode editorState path = Inr v"
    and "children_of v = Some ks"
  shows "\<exists>e. clearIdeas editorState path = Inr e
           \<and> getIdeas e path = Inr []
           \<and> clearIdeas e path = Inr e
           \<and> (type_of v \<noteq> Some Image \<longrightarrow>
                (\<exists>v'. getNode e path = Inr v'
                   \<and> children_of v' = Some (filter (\<lambda>c. \<not> isIdeaElement c) ks)))"
proof (cases "type_of v = Some Image")
  case True
  with assms(2) have "getIdeas editorState path = Inr []" by (simp add: getIdeas_def)
  then have "clearIdeas editorState path = Inr editorState" by (simp add: clearIdeas_def)
  with \<open>getIdeas editorState path = Inr []\<close> True show ?thesis by simp
next
  case False
  from assms(2,3) have k: "kids_val (Ed editorState) path = Some ks"
    by (simp add: kids_val_def getNode_def Editor_node_def)
  from False assms(2,3) have gi: "getIdeas editorState path = Inr (filter isIdeaElement ks)"
    by (simp add: getIdeas_def)
  from clearIdeas_forEach_clears[OF assms(1) k] obtain e where
    c: "clearIdeas_forEach editorState (filter isIdeaElement ks) = Inr e"
    and ke: "kids_val (Ed e) path = Some (filter (\<lambda>c. \<not> isIdeaElement c) ks)" by blast
  from ke obtain v' where v': "getNode e path = Inr v'"
    and cv': "children_of v' = Some (filter (\<lambda>c. \<not> isIdeaElement c) ks)"
    by (auto simp add: kids_val_def getNode_def Editor_node_def split: sum.splits)
  have ge: "getIdeas e path = Inr []"
    using v' cv' by (simp add: getIdeas_def)
  then have "clearIdeas e path = Inr e" by (simp add: clearIdeas_def)
  with c gi ge v' cv' show ?thesis by (simp add: clearIdeas_def)
qed

theorem clearIdeas_idempotent_witness:
  "distinct (idents_list (children ideas_doc))
   \<and> getIdeas ideas_doc [0] = Inr [idea 2 ''p1'' [leaf 3 ''I1''], idea 5 ''p2'' [leaf 6 ''I2'']]
   \<and> (\<exists>e. clearIdeas ideas_doc [0] = Inr e
        \<and> getIdeas e [0] = Inr []
        \<and> clearIdeas e [0] = Inr e
        \<and> getNodeChildren e [0] = Inr (Some [leaf 1 ''C1'', leaf 4 ''C2'']))"
  using clearIdeas_idempotent[of ideas_doc "[0]"
      "Nd (Element 0 Paragraph no_props
         [leaf 1 ''C1'', idea 2 ''p1'' [leaf 3 ''I1''], leaf 4 ''C2'', idea 5 ''p2'' [leaf 6 ''I2'']])"
      "[leaf 1 ''C1'', idea 2 ''p1'' [leaf 3 ''I1''], leaf 4 ''C2'', idea 5 ''p2'' [leaf 6 ''I2'']]"]
  by (simp add: ideas_doc_def eval_defs)

end
